theory Spec2Isabelle
  imports Main
begin

section \<open>The dialog module of libRPG (librpg/dialog.py)\<close>

text \<open>
  The module wraps a text into lines that fit a pixel width (\<open>build_lines\<close>), groups
  lines into boxes that fit a pixel height (\<open>split_boxes\<close>), builds four kinds of
  dialogs from them and sequences dialogs through a \<open>MessageQueue\<close>.

  Python exceptions are values of the type \<open>error\<close>; a function that can raise returns
  \<open>error + 'a\<close>, with \<open>Inl\<close> for the exception.
\<close>

datatype error = IndexError | AssertionError

subsection \<open>\<open>str.split()\<close>\<close>

text \<open>
  The module is Python 2 code (integer \<open>/\<close>, byte strings), so a string is a list of
  bytes and the whitespace of \<open>text.split()\<close> is the ASCII whitespace: space, tab,
  line feed, vertical tab, form feed and carriage return.
\<close>

definition isspace :: "char \<Rightarrow> bool" where
  "isspace c = (c \<in> set [CHR '' '', CHR 0x09, CHR 0x0A, CHR 0x0B, CHR 0x0C, CHR 0x0D])"

text \<open>
  \<open>split_acc cur s\<close> scans \<open>s\<close> with the word \<open>cur\<close> read so far: whitespace
  ends a word (and is skipped when no word is open), any other character extends it.
  With no separator given, Python returns no empty words.
\<close>

fun split_acc :: "string \<Rightarrow> string \<Rightarrow> string list" where
  "split_acc cur [] = (if cur = [] then [] else [cur])"
| "split_acc cur (c # cs) =
     (if isspace c then (if cur = [] then split_acc [] cs else cur # split_acc [] cs)
      else split_acc (cur @ [c]) cs)"

definition str_split :: "string \<Rightarrow> string list" where
  "str_split s = split_acc [] s"

subsection \<open>\<open>build_lines\<close>\<close>

text \<open>
  \<open>font.size(s)\<close> gives the pair (width, height) of the rendered string; the font is
  a parameter of the module, so it is any function from strings to pairs of integers.
  A line is the two-element list \<open>[height, text]\<close> of the source.
\<close>

type_synonym font = "string \<Rightarrow> int \<times> int"
type_synonym line = "int \<times> string"

text \<open>
  The body of the \<open>for word in words[1:]\<close> loop, on the loop's variables
  \<open>(lines, cur_line, height)\<close>. The assignment \<open>width, height = font.size(projected_line)\<close>
  overwrites \<open>height\<close> before the test.
\<close>

fun build_lines_loop :: "font \<Rightarrow> int \<Rightarrow> string list \<Rightarrow> line list \<times> string \<times> int
    \<Rightarrow> line list \<times> string \<times> int" where
  "build_lines_loop font box_width [] st = st"
| "build_lines_loop font box_width (word # ws) (lines, cur_line, height) =
     (let projected_line = cur_line @ '' '' @ word;
          (width, height) = font projected_line
      in if width > box_width
         then build_lines_loop font box_width ws (lines @ [(height, cur_line)], word, height)
         else build_lines_loop font box_width ws (lines, cur_line @ '' '' @ word, height))"

definition build_lines :: "string \<Rightarrow> int \<Rightarrow> font \<Rightarrow> error + line list" where
  "build_lines text box_width font =
     (case str_split text of
        [] \<Rightarrow> Inl IndexError
      | cur_line # rest \<Rightarrow>
          (let (_, height) = font cur_line;
               (lines, cur_line, height) =
                  build_lines_loop font box_width rest ([], cur_line, height)
           in Inr (lines @ [(height, cur_line)])))"

subsection \<open>\<open>split_boxes\<close>\<close>

text \<open>
  The loop over \<open>lines[1:]\<close>, on the loop's variables \<open>(boxes, box_cur_height, box)\<close>.
\<close>

fun split_boxes_loop :: "int \<Rightarrow> int \<Rightarrow> line list \<Rightarrow> line list list \<times> int \<times> line list
    \<Rightarrow> line list list \<times> int \<times> line list" where
  "split_boxes_loop box_height line_spacing [] st = st"
| "split_boxes_loop box_height line_spacing (line # ls) (boxes, box_cur_height, box) =
     (if box_cur_height + fst line + line_spacing > box_height
      then split_boxes_loop box_height line_spacing ls (boxes @ [box], fst line, [line])
      else split_boxes_loop box_height line_spacing ls
             (boxes, box_cur_height + (fst line + line_spacing), box @ [line]))"

definition split_boxes :: "line list \<Rightarrow> int \<Rightarrow> int \<Rightarrow> error + line list list" where
  "split_boxes lines box_height line_spacing =
     (case lines of
        [] \<Rightarrow> Inl IndexError
      | line0 # rest \<Rightarrow>
          (let (boxes, box_cur_height, box) =
                  split_boxes_loop box_height line_spacing rest ([], fst line0, [line0])
           in Inr (if box \<noteq> [] then boxes @ [box] else boxes)))"

subsection \<open>Configuration, events, widgets and menus\<close>

text \<open>
  The configuration objects of \<open>librpg.config\<close> that the module reads:
  \<open>graphics_config\<close> (screen size), \<open>dialog_config\<close> (border, font size, spacings),
  \<open>game_config\<close> (the key lists) and the theme's \<open>get_font\<close>. They are parameters of
  the module. The spacing fields carry the prefix \<open>cfg_\<close> because \<open>line_spacing\<close> is
  also the name of a parameter of \<open>split_boxes\<close>.
\<close>

record config =
  screen_width :: int
  screen_height :: int
  border_width :: int
  font_size :: int
  cfg_line_spacing :: int
  cfg_choice_line_spacing :: int
  key_action :: "nat list"
  key_left :: "nat list"
  key_right :: "nat list"
  get_font :: "int \<Rightarrow> font"

text \<open>
  A pygame event: its type and, for a keyboard event, its key. The handlers read
  \<open>event.key\<close> only after \<open>event.type == KEYDOWN\<close>.
\<close>

datatype event_type = KEYDOWN | KEYUP | OTHER_EVENT

record event =
  ev_type :: event_type
  ev_key :: nat

text \<open>
  Modelled from the spec: the classes \<open>Menu\<close>, \<open>Panel\<close>, \<open>Label\<close> and
  \<open>MenuController\<close> of \<open>librpg.menu\<close> are not among the sources. The spec treats
  them as the widget toolkit: a panel holds widgets at positions, a menu has a geometry
  and holds widgets, and closing a menu ends its lifecycle. The model keeps exactly what
  the dialogs pass to them: \<open>add_widget\<close> appends, \<open>remove_widget\<close> removes the
  widget, \<open>close\<close> sets a flag.
\<close>

datatype widget =
    Label string bool
  | Panel int int "(widget \<times> int \<times> int) list"

fun panel_add_widget :: "widget \<Rightarrow> widget \<Rightarrow> int \<times> int \<Rightarrow> widget" where
  "panel_add_widget (Panel w h ws) x pos = Panel w h (ws @ [(x, pos)])"
| "panel_add_widget (Label t f) x pos = Label t f"

record menu =
  width :: int
  height :: int
  menu_x :: int
  menu_y :: int
  widgets :: "(widget \<times> int \<times> int) list"
  closed :: bool

definition Menu_init :: "int \<Rightarrow> int \<Rightarrow> int \<Rightarrow> int \<Rightarrow> menu" where
  "Menu_init w h x y =
     \<lparr>width = w, height = h, menu_x = x, menu_y = y, widgets = [], closed = False\<rparr>"

definition add_widget :: "menu \<Rightarrow> widget \<Rightarrow> int \<times> int \<Rightarrow> menu" where
  "add_widget m x pos = m\<lparr>widgets := widgets m @ [(x, pos)]\<rparr>"

fun remove1_widget :: "widget \<Rightarrow> (widget \<times> int \<times> int) list \<Rightarrow> (widget \<times> int \<times> int) list" where
  "remove1_widget x [] = []"
| "remove1_widget x (e # es) = (if fst e = x then es else e # remove1_widget x es)"

definition remove_widget :: "menu \<Rightarrow> widget \<Rightarrow> menu" where
  "remove_widget m x = m\<lparr>widgets := remove1_widget x (widgets m)\<rparr>"

definition close :: "menu \<Rightarrow> menu" where
  "close m = m\<lparr>closed := True\<rparr>"

text \<open>
  The loop under \<open># Draw message\<close>, which every dialog runs: one label per line, at
  the running offset \<open>y_acc\<close>.
\<close>

fun draw_message :: "config \<Rightarrow> line list \<Rightarrow> int \<Rightarrow> widget \<Rightarrow> widget" where
  "draw_message cfg [] y_acc panel = panel"
| "draw_message cfg (line # ls) y_acc panel =
     draw_message cfg ls (y_acc + (fst line + cfg_line_spacing cfg))
       (panel_add_widget panel (Label (snd line) True)
          (border_width cfg, border_width cfg + y_acc))"

subsection \<open>The dialogs\<close>

text \<open>
  Every dialog class derives from \<open>Menu\<close> and stores \<open>text\<close> and \<open>block_movement\<close>;
  the record \<open>dialog\<close> holds the base-class state and these two, and is the state of a
  \<open>MessageDialog\<close>. The other classes extend it with their own attributes.
\<close>

record dialog =
  menu :: menu
  dlg_text :: string
  block_movement :: bool

record elastic_message_dialog = dialog +
  box_height :: int

record multi_message_dialog = dialog +
  current_panel :: "widget option"
  boxes :: "line list list"
  panels :: "widget list"

record choice_dialog = dialog +
  choices :: "string list"

text \<open>
  \<open>process_event\<close> returns the flag and, as Python mutates \<open>self\<close>, the dialog after
  the event.
\<close>

definition MessageDialog_process_event :: "config \<Rightarrow> dialog \<Rightarrow> event \<Rightarrow> bool \<times> dialog" where
  "MessageDialog_process_event cfg self event =
     (let self = (if ev_type event = KEYDOWN \<and> ev_key event \<in> set (key_action cfg)
                  then self\<lparr>menu := close (menu self)\<rparr> else self)
      in (block_movement self, self))"

text \<open>
  \<open>ElasticMessageDialog.__init__\<close>: the lines are built and the height is asserted
  before \<open>Menu.__init__\<close> runs. The panel is added to the menu before its labels are
  drawn; the menu holds a reference to it, so the menu ends with the drawn panel.
\<close>

definition ElasticMessageDialog_init :: "config \<Rightarrow> string \<Rightarrow> bool \<Rightarrow> error + elastic_message_dialog" where
  "ElasticMessageDialog_init cfg text blk =
     (let font = get_font cfg (font_size cfg);
          box_width = screen_width cfg - 4 * border_width cfg
      in case build_lines text box_width font of
           Inl e \<Rightarrow> Inl e
         | Inr lines \<Rightarrow>
             (let bh = sum_list (map fst lines)
                       + (int (length lines) - 1) * cfg_line_spacing cfg
                       + 4 * border_width cfg
              in if \<not> bh < screen_height cfg then Inl AssertionError
                 else
                   (let m = Menu_init (screen_width cfg - 2 * border_width cfg)
                                      (bh - 2 * border_width cfg)
                                      (border_width cfg)
                                      (screen_height cfg - bh + border_width cfg);
                        panel = draw_message cfg lines 0 (Panel (width m) (height m) [])
                    in Inr \<lparr>menu = add_widget m panel (0, 0), dlg_text = text,
                             block_movement = blk, box_height = bh\<rparr>)))"

definition ElasticMessageDialog_process_event ::
    "config \<Rightarrow> elastic_message_dialog \<Rightarrow> event \<Rightarrow> bool \<times> elastic_message_dialog" where
  "ElasticMessageDialog_process_event cfg self event =
     (let self = (if ev_type event = KEYDOWN \<and> ev_key event \<in> set (key_action cfg)
                  then self\<lparr>menu := close (menu self)\<rparr> else self)
      in (block_movement self, self))"

text \<open>\<open>MultiMessageDialog\<close>: one panel per box, shown one at a time.\<close>

definition advance_panel :: "multi_message_dialog \<Rightarrow> multi_message_dialog" where
  "advance_panel self =
     (let self = (case current_panel self of
                    Some p \<Rightarrow> self\<lparr>menu := remove_widget (menu self) p, current_panel := None\<rparr>
                  | None \<Rightarrow> self)
      in case panels self of
           [] \<Rightarrow> self
         | p # ps \<Rightarrow> self\<lparr>menu := add_widget (menu self) p (0, 0),
                           current_panel := Some p, panels := ps\<rparr>)"

definition draw_panel :: "config \<Rightarrow> int \<Rightarrow> int \<Rightarrow> line list \<Rightarrow> widget" where
  "draw_panel cfg w h box = draw_message cfg box 0 (Panel w h [])"

definition MultiMessageDialog_init :: "config \<Rightarrow> string \<Rightarrow> bool \<Rightarrow> error + multi_message_dialog" where
  "MultiMessageDialog_init cfg text blk =
     (let m = Menu_init (screen_width cfg - 2 * border_width cfg)
                        (screen_height cfg div 2 - 2 * border_width cfg)
                        (border_width cfg)
                        (screen_height cfg div 2 + border_width cfg);
          font = get_font cfg (font_size cfg);
          box_width = screen_width cfg - 4 * border_width cfg
      in case build_lines text box_width font of
           Inl e \<Rightarrow> Inl e
         | Inr lines \<Rightarrow>
             (case split_boxes lines (screen_height cfg div 2 - 4 * border_width cfg)
                     (cfg_line_spacing cfg) of
                Inl e \<Rightarrow> Inl e
              | Inr bs \<Rightarrow>
                  Inr (advance_panel
                         \<lparr>menu = m, dlg_text = text, block_movement = blk,
                          current_panel = None, boxes = bs,
                          panels = map (draw_panel cfg (width m) (height m)) bs\<rparr>)))"

definition MultiMessageDialog_process_event ::
    "config \<Rightarrow> multi_message_dialog \<Rightarrow> event \<Rightarrow> bool \<times> multi_message_dialog" where
  "MultiMessageDialog_process_event cfg self event =
     (let self = (if ev_type event = KEYDOWN \<and> ev_key event \<in> set (key_action cfg)
                  then (let self = advance_panel self
                        in if current_panel self = None
                           then self\<lparr>menu := close (menu self)\<rparr> else self)
                  else self)
      in (block_movement self, self))"

text \<open>
  \<open>ChoiceDialog.process_event\<close>: the second test is inside the \<open>KEYDOWN\<close> branch and
  returns at once; the action test before it does not return.
\<close>

definition ChoiceDialog_process_event :: "config \<Rightarrow> choice_dialog \<Rightarrow> event \<Rightarrow> bool \<times> choice_dialog" where
  "ChoiceDialog_process_event cfg self event =
     (if ev_type event = KEYDOWN
      then (let self = (if ev_key event \<in> set (key_action cfg)
                        then self\<lparr>menu := close (menu self)\<rparr> else self)
            in if ev_key event \<in> set (key_left cfg) \<or> ev_key event \<in> set (key_right cfg)
               then (True, self)
               else (block_movement self, self))
      else (block_movement self, self))"

subsection \<open>\<open>MessageQueue\<close>\<close>

text \<open>
  The queue's own attributes are \<open>current\<close>, \<open>controller\<close> and \<open>queue\<close>. The context
  stack returned by \<open>get_context_stack()\<close> is global state outside the class; the field
  \<open>context_stack\<close> records, in order, the controllers that \<open>stack_context\<close> received.
  The queue is polymorphic in the type of its messages.
\<close>

datatype 'm menu_controller = MenuController 'm

record 'm message_queue =
  current :: "'m option"
  controller :: "'m menu_controller option"
  queue :: "'m list"
  context_stack :: "'m menu_controller list"

definition MessageQueue_init :: "'m message_queue" where
  "MessageQueue_init = \<lparr>current = None, controller = None, queue = [], context_stack = []\<rparr>"

definition is_active :: "'m message_queue \<Rightarrow> bool" where
  "is_active self = (current self \<noteq> None)"

definition is_busy :: "('a dialog_scheme) message_queue \<Rightarrow> bool" where
  "is_busy self = (case current self of None \<Rightarrow> False | Some d \<Rightarrow> block_movement d)"

definition pop_next :: "'m message_queue \<Rightarrow> 'm message_queue" where
  "pop_next self =
     (if current self = None \<and> queue self \<noteq> []
      then (let m = hd (queue self)
            in self\<lparr>current := Some m, queue := tl (queue self),
                     controller := Some (MenuController m),
                     context_stack := context_stack self @ [MenuController m]\<rparr>)
      else self)"

definition push :: "'m \<Rightarrow> 'm message_queue \<Rightarrow> 'm message_queue" where
  "push message self = self\<lparr>queue := queue self @ [message]\<rparr>"

text \<open>
  \<open>controller.is_done()\<close> reads the state of an object the context stack and the
  player's input change; \<open>update\<close> takes the answer the call gives at this tick as its
  argument \<open>is_done\<close>. The call is made only when a controller exists. The returned
  \<open>False\<close> is constant and left out.
\<close>

definition update :: "bool \<Rightarrow> 'm message_queue \<Rightarrow> 'm message_queue" where
  "update is_done self =
     pop_next (if controller self \<noteq> None \<and> is_done then self\<lparr>current := None\<rparr> else self)"

text \<open>
  What the host does to a queue: a call of \<open>push\<close>, or a tick (\<open>update\<close>, with the
  answer of \<open>is_done\<close> at that tick). \<open>run\<close> performs a sequence of them.
\<close>

datatype 'm action = Push 'm | Update bool

fun step :: "'m message_queue \<Rightarrow> 'm action \<Rightarrow> 'm message_queue" where
  "step self (Push m) = push m self"
| "step self (Update is_done) = update is_done self"

definition run :: "'m action list \<Rightarrow> 'm message_queue \<Rightarrow> 'm message_queue" where
  "run acts self = foldl step self acts"

fun pushed :: "'m action list \<Rightarrow> 'm list" where
  "pushed [] = []"
| "pushed (Push m # acts) = m # pushed acts"
| "pushed (Update b # acts) = pushed acts"

fun menu_of :: "'m menu_controller \<Rightarrow> 'm" where
  "menu_of (MenuController m) = m"

subsection \<open>Notions the properties are stated with\<close>

text \<open>
  A word is a non-empty string without whitespace; \<open>join_words\<close> is Python's
  \<open>' '.join(words)\<close>.
\<close>

definition is_word :: "string \<Rightarrow> bool" where
  "is_word w = (w \<noteq> [] \<and> list_all (\<lambda>c. \<not> isspace c) w)"

fun join_words :: "string list \<Rightarrow> string" where
  "join_words [] = []"
| "join_words [w] = w"
| "join_words (w # v # ws) = w @ '' '' @ join_words (v # ws)"

text \<open>
  The height of a box: the heights of its lines, and the spacing between consecutive
  lines.
\<close>

definition box_total_height :: "int \<Rightarrow> line list \<Rightarrow> int" where
  "box_total_height line_spacing box =
     sum_list (map fst box) + (int (length box) - 1) * line_spacing"

text \<open>
  The height an elastic dialog needs for its lines: the box's total height and the
  border padding.
\<close>

definition computed_box_height :: "config \<Rightarrow> line list \<Rightarrow> int" where
  "computed_box_height cfg ls =
     box_total_height (cfg_line_spacing cfg) ls + 4 * border_width cfg"

text \<open>A confirm event is a key press of one of the action keys.\<close>

definition is_confirm :: "config \<Rightarrow> event \<Rightarrow> bool" where
  "is_confirm cfg e = (ev_type e = KEYDOWN \<and> ev_key e \<in> set (key_action cfg))"

definition process_events :: "config \<Rightarrow> multi_message_dialog \<Rightarrow> event list \<Rightarrow> multi_message_dialog" where
  "process_events cfg d es = foldl (\<lambda>d e. snd (MultiMessageDialog_process_event cfg d e)) d es"

subsection \<open>Concrete fonts and a concrete configuration\<close>

text \<open>
  \<open>mono_font\<close> is a fixed-size font: 8 pixels per character, 16 pixels high.
  \<open>tall_font\<close> has the same widths, and a text containing the letter Q is 20 pixels
  high.
\<close>

definition mono_font :: font where
  "mono_font s = (8 * int (length s), 16)"

definition tall_font :: font where
  "tall_font s = (8 * int (length s), if CHR ''Q'' \<in> set s then 20 else 16)"

definition demo_config :: config where
  "demo_config =
     \<lparr>screen_width = 100, screen_height = 120, border_width = 5, font_size = 12,
      cfg_line_spacing = 2, cfg_choice_line_spacing = 2,
      key_action = [13], key_left = [276], key_right = [275],
      get_font = (\<lambda>n. mono_font)\<rparr>"

text \<open>
  A box is in order when it has a line and its total height is within the budget
  \<open>bh\<close>, or it is a single line that alone is taller than the budget.
\<close>

definition box_ok :: "int \<Rightarrow> int \<Rightarrow> line list \<Rightarrow> bool" where
  "box_ok bh sp b =
     (b \<noteq> [] \<and> (box_total_height sp b \<le> bh \<or> (\<exists>l. b = [l] \<and> bh < fst l)))"

subsection \<open>Notions for the dialogs and the queue\<close>

text \<open>
  Page \<open>i\<close> of a multi-message dialog is the panel drawn from its \<open>i\<close>-th box. The
  dialog shows a panel when the panel is its current panel and the only widget of the
  menu, and the menu is open. It is closed when the menu is closed and no panel is
  left on it. \<open>confirms\<close> counts the confirm events of a sequence of events.
\<close>

definition page :: "config \<Rightarrow> multi_message_dialog \<Rightarrow> nat \<Rightarrow> widget" where
  "page cfg d i = draw_panel cfg (width (menu d)) (height (menu d)) (boxes d ! i)"

definition shows_panel :: "multi_message_dialog \<Rightarrow> widget \<Rightarrow> bool" where
  "shows_panel d p =
     (current_panel d = Some p \<and> widgets (menu d) = [(p, 0, 0)] \<and> \<not> closed (menu d))"

definition is_closed :: "multi_message_dialog \<Rightarrow> bool" where
  "is_closed d = (closed (menu d) \<and> current_panel d = None \<and> widgets (menu d) = [])"

definition confirms :: "config \<Rightarrow> event list \<Rightarrow> nat" where
  "confirms cfg es = length (filter (is_confirm cfg) es)"

text \<open>
  The two kinds of state of a multi-message dialog over the panels \<open>ps\<close>: it shows
  panel \<open>k\<close> and the panels after it are still to come, or it is closed and no panel
  is left.
\<close>

definition showing :: "widget list \<Rightarrow> nat \<Rightarrow> multi_message_dialog \<Rightarrow> bool" where
  "showing ps k d = (k < length ps \<and> shows_panel d (ps ! k) \<and> panels d = drop (Suc k) ps)"

definition finished :: "multi_message_dialog \<Rightarrow> bool" where
  "finished d = (is_closed d \<and> panels d = [])"

text \<open>
  The dialogs a queue has activated, in the order of activation: the menus of the
  controllers it has stacked. A done tick is an \<open>update\<close> at which \<open>is_done\<close> answers
  \<open>True\<close>.
\<close>

definition activated :: "'m message_queue \<Rightarrow> 'm list" where
  "activated self = map menu_of (context_stack self)"

fun is_done_tick :: "'m action \<Rightarrow> bool" where
  "is_done_tick (Push m) = False"
| "is_done_tick (Update is_done) = is_done"

definition done_ticks :: "'m action list \<Rightarrow> nat" where
  "done_ticks acts = length (filter is_done_tick acts)"

text \<open>The invariant of the queue after the actions \<open>acts\<close>.\<close>

definition queue_inv :: "'m action list \<Rightarrow> 'm message_queue \<Rightarrow> bool" where
  "queue_inv acts s =
     (activated s @ queue s = pushed acts
      \<and> controller s = (if context_stack s = [] then None else Some (last (context_stack s)))
      \<and> (current s = None
           \<or> (context_stack s \<noteq> [] \<and> current s = Some (menu_of (last (context_stack s)))))
      \<and> length (context_stack s) \<le> done_ticks acts + (if current s = None then 0 else 1))"

subsection \<open>Concrete events, dialogs and actions\<close>

definition key_event :: "nat \<Rightarrow> event" where
  "key_event k = \<lparr>ev_type = KEYDOWN, ev_key = k\<rparr>"

definition demo_menu :: menu where
  "demo_menu = Menu_init 90 50 5 65"

definition demo_dialog :: dialog where
  "demo_dialog = \<lparr>menu = demo_menu, dlg_text = ''ab'', block_movement = False\<rparr>"

definition demo_choice :: choice_dialog where
  "demo_choice = \<lparr>menu = demo_menu, dlg_text = ''ab'', block_movement = False,
                   choices = [''yes'', ''no'']\<rparr>"

definition demo_acts :: "nat action list" where
  "demo_acts = [Push 1, Push 2, Update False, Push 3, Update False, Update True]"

section \<open>Line wrapping\<close>

subsection \<open>Splitting and joining\<close>

lemma isspace_space: "isspace (CHR '' '')"
  by (simp add: isspace_def)

lemma split_acc_space:
  "isspace c \<Longrightarrow> split_acc cur (a @ c # b) = split_acc cur a @ split_acc [] b"
  by (induction a arbitrary: cur) auto

lemma split_acc_word:
  "list_all (\<lambda>c. \<not> isspace c) w \<Longrightarrow> split_acc cur w = (if cur @ w = [] then [] else [cur @ w])"
  by (induction w arbitrary: cur) auto

lemma str_split_word: "is_word w \<Longrightarrow> str_split w = [w]"
  by (simp add: is_word_def str_split_def split_acc_word)

lemma str_split_snoc: "is_word w \<Longrightarrow> str_split (cur @ CHR '' '' # w) = str_split cur @ [w]"
  using split_acc_space [OF isspace_space, of "[]" cur w] str_split_word [of w]
  by (simp add: str_split_def)

lemma split_acc_words:
  "list_all (\<lambda>c. \<not> isspace c) cur \<Longrightarrow> list_all is_word (split_acc cur s)"
  by (induction s arbitrary: cur) (auto simp: is_word_def)

lemma str_split_words: "list_all is_word (str_split s)"
  by (simp add: str_split_def split_acc_words)

lemma join_words_append:
  "xs \<noteq> [] \<Longrightarrow> ys \<noteq> [] \<Longrightarrow> join_words (xs @ ys) = join_words xs @ '' '' @ join_words ys"
proof (induction xs rule: join_words.induct)
  case 1 then show ?case by simp
next
  case (2 w) then show ?case by (cases ys) auto
next
  case (3 w v ws) then show ?case by simp
qed

lemma join_words_snoc2: "join_words (xs @ [a @ '' '' @ b]) = join_words (xs @ [a, b])"
proof (cases "xs = []")
  case True then show ?thesis by simp
next
  case False then show ?thesis by (simp add: join_words_append)
qed

lemma split_demo: "str_split ''ab cd ef'' = [''ab'', ''cd'', ''ef'']"
  by (simp add: str_split_def isspace_def)

subsection \<open>The loop of \<open>build_lines\<close>\<close>

lemma loop_step:
  "build_lines_loop font bw (w # ws) (ls, cur, h) =
     (if bw < fst (font (cur @ CHR '' '' # w))
      then build_lines_loop font bw ws
             (ls @ [(snd (font (cur @ CHR '' '' # w)), cur)], w, snd (font (cur @ CHR '' '' # w)))
      else build_lines_loop font bw ws
             (ls, cur @ CHR '' '' # w, snd (font (cur @ CHR '' '' # w))))"
  by (simp add: Let_def split: prod.splits)


lemma build_lines_Inr:
  assumes "str_split t = w # rest"
  shows "build_lines t bw font =
     Inr (fst (build_lines_loop font bw rest ([], w, snd (font w)))
          @ [(snd (snd (build_lines_loop font bw rest ([], w, snd (font w)))),
              fst (snd (build_lines_loop font bw rest ([], w, snd (font w)))))])"
  using assms by (simp add: build_lines_def split: prod.splits)

text \<open>Widths: the current line and every finished line fit.\<close>

lemma loop_width:
  assumes "build_lines_loop font bw ws (ls, cur, h) = (ls', cur', h')"
    and "list_all (\<lambda>w. fst (font w) \<le> bw) ws"
    and "fst (font cur) \<le> bw"
    and "list_all (\<lambda>l. fst (font (snd l)) \<le> bw) ls"
  shows "fst (font cur') \<le> bw \<and> list_all (\<lambda>l. fst (font (snd l)) \<le> bw) ls'"
  using assms
proof (induction ws arbitrary: ls cur h)
  case Nil then show ?case by simp
next
  case (Cons w ws)
  let ?p = "cur @ CHR '' '' # w"
  show ?case
  proof (cases "bw < fst (font ?p)")
    case True
    with Cons.prems(1)
    have "build_lines_loop font bw ws (ls @ [(snd (font ?p), cur)], w, snd (font ?p)) = (ls', cur', h')"
      by (simp add: loop_step del: build_lines_loop.simps(2))
    from Cons.IH [OF this] Cons.prems show ?thesis by simp
  next
    case False
    with Cons.prems(1)
    have "build_lines_loop font bw ws (ls, ?p, snd (font ?p)) = (ls', cur', h')"
      by (simp add: loop_step del: build_lines_loop.simps(2))
    from Cons.IH [OF this] Cons.prems False show ?thesis by simp
  qed
qed

text \<open>Words: the lines and the current line hold the words read so far, in order.\<close>

lemma loop_words:
  assumes "build_lines_loop font bw ws (ls, cur, h) = (ls', cur', h')"
    and "list_all is_word ws"
  shows "concat (map (str_split \<circ> snd) ls') @ str_split cur'
         = concat (map (str_split \<circ> snd) ls) @ str_split cur @ ws"
  using assms
proof (induction ws arbitrary: ls cur h)
  case Nil then show ?case by simp
next
  case (Cons w ws)
  then have w: "is_word w" by simp
  let ?p = "cur @ CHR '' '' # w"
  show ?case
  proof (cases "bw < fst (font ?p)")
    case True
    with Cons.prems(1)
    have "build_lines_loop font bw ws (ls @ [(snd (font ?p), cur)], w, snd (font ?p)) = (ls', cur', h')"
      by (simp add: loop_step del: build_lines_loop.simps(2))
    from Cons.IH [OF this] Cons.prems show ?thesis by (simp add: str_split_word [OF w])
  next
    case False
    with Cons.prems(1)
    have "build_lines_loop font bw ws (ls, ?p, snd (font ?p)) = (ls', cur', h')"
      by (simp add: loop_step del: build_lines_loop.simps(2))
    from Cons.IH [OF this] Cons.prems show ?thesis by (simp add: str_split_snoc [OF w])
  qed
qed

lemma loop_join:
  assumes "build_lines_loop font bw ws (ls, cur, h) = (ls', cur', h')"
  shows "join_words (map snd ls' @ [cur']) = join_words (map snd ls @ cur # ws)"
  using assms
proof (induction ws arbitrary: ls cur h)
  case Nil then show ?case by simp
next
  case (Cons w ws)
  let ?p = "cur @ CHR '' '' # w"
  show ?case
  proof (cases "bw < fst (font ?p)")
    case True
    with Cons.prems(1)
    have "build_lines_loop font bw ws (ls @ [(snd (font ?p), cur)], w, snd (font ?p)) = (ls', cur', h')"
      by (simp add: loop_step del: build_lines_loop.simps(2))
    from Cons.IH [OF this] show ?thesis by simp
  next
    case False
    with Cons.prems(1)
    have "build_lines_loop font bw ws (ls, ?p, snd (font ?p)) = (ls', cur', h')"
      by (simp add: loop_step del: build_lines_loop.simps(2))
    from Cons.IH [OF this]
    have "join_words (map snd ls' @ [cur']) = join_words (map snd ls @ (cur @ '' '' @ w) # ws)"
      by simp
    also have "\<dots> = join_words (map snd ls @ cur # w # ws)"
    proof (cases "ws = []")
      case True
      then show ?thesis using join_words_snoc2 [of "map snd ls" cur w] by simp
    next
      case ne: False
      have "join_words ((map snd ls @ [cur @ '' '' @ w]) @ ws)
            = join_words (map snd ls @ [cur @ '' '' @ w]) @ '' '' @ join_words ws"
        by (rule join_words_append) (simp_all add: ne)
      also have "\<dots> = join_words (map snd ls @ [cur, w]) @ '' '' @ join_words ws"
        by (simp only: join_words_snoc2)
      also have "\<dots> = join_words ((map snd ls @ [cur, w]) @ ws)"
        by (rule join_words_append [symmetric]) (simp_all add: ne)
      finally show ?thesis by simp
    qed
    finally show ?thesis .
  qed
qed

text \<open>Every line is its own words joined by single spaces, and has a word.\<close>

lemma wordy_snoc:
  assumes "cur = join_words (str_split cur)" "str_split cur \<noteq> []" "is_word w"
  shows "cur @ CHR '' '' # w = join_words (str_split (cur @ CHR '' '' # w))"
proof -
  have "join_words (str_split cur @ [w]) = join_words (str_split cur) @ '' '' @ join_words [w]"
    by (rule join_words_append) (simp_all add: assms(2))
  with assms(1) show ?thesis by (simp add: str_split_snoc [OF assms(3)])
qed

lemma loop_wordy:
  assumes "build_lines_loop font bw ws (ls, cur, h) = (ls', cur', h')"
    and "list_all is_word ws"
    and "cur = join_words (str_split cur) \<and> str_split cur \<noteq> []"
    and "list_all (\<lambda>l. snd l = join_words (str_split (snd l)) \<and> str_split (snd l) \<noteq> []) ls"
  shows "(cur' = join_words (str_split cur') \<and> str_split cur' \<noteq> []) \<and>
         list_all (\<lambda>l. snd l = join_words (str_split (snd l)) \<and> str_split (snd l) \<noteq> []) ls'"
  using assms
proof (induction ws arbitrary: ls cur h)
  case Nil then show ?case by simp
next
  case (Cons w ws)
  then have w: "is_word w" and ws: "list_all is_word ws" by simp_all
  let ?p = "cur @ CHR '' '' # w"
  show ?case
  proof (cases "bw < fst (font ?p)")
    case True
    with Cons.prems(1)
    have "build_lines_loop font bw ws (ls @ [(snd (font ?p), cur)], w, snd (font ?p)) = (ls', cur', h')"
      by (simp add: loop_step del: build_lines_loop.simps(2))
    from Cons.IH [OF this ws] Cons.prems(3,4) show ?thesis by (simp add: str_split_word [OF w])
  next
    case False
    with Cons.prems(1)
    have "build_lines_loop font bw ws (ls, ?p, snd (font ?p)) = (ls', cur', h')"
      by (simp add: loop_step del: build_lines_loop.simps(2))
    from Cons.IH [OF this ws _ Cons.prems(4)] wordy_snoc [of cur w] Cons.prems(3) w
    show ?thesis by (simp add: str_split_snoc [OF w])
  qed
qed






subsection \<open>The properties of \<open>build_lines\<close>\<close>

text \<open>
  Claim C9. \<open>build_lines\<close> fails on the empty text: the first word is read from an empty
  word list, which raises \<open>IndexError\<close>. This is its only failure, and it happens
  exactly when the text has no word. A text with at least one word always gives a
  result, and the result has at least one line.
\<close>

theorem build_lines_total_on_words:
  "build_lines [] bw font = Inl IndexError
   \<and> (build_lines t bw font = Inl IndexError \<longleftrightarrow> str_split t = [])
   \<and> (str_split t \<noteq> [] \<longrightarrow> (\<exists>ls. build_lines t bw font = Inr ls \<and> ls \<noteq> []))"
proof (cases "str_split t")
  case Nil
  then show ?thesis by (simp add: build_lines_def str_split_def)
next
  case (Cons w rest)
  show ?thesis
    by (simp add: build_lines_Inr [OF Cons] Cons) (simp add: build_lines_def str_split_def)
qed

theorem build_lines_total_on_words_witness:
  "build_lines [] 40 mono_font = Inl IndexError
   \<and> str_split ''ab cd ef'' \<noteq> []
   \<and> (\<exists>ls. build_lines ''ab cd ef'' 40 mono_font = Inr ls \<and> ls \<noteq> [])"
  using build_lines_total_on_words [of 40 mono_font "''ab cd ef''"]
  by (simp add: split_demo)

text \<open>
  Claim C1, as stated, fails for a text that is not empty and has no word: a single
  space is such a text, and \<open>build_lines\<close> raises \<open>IndexError\<close> on it, whatever the
  width.
\<close>

theorem build_lines_blank_text_fails:
  "'' '' \<noteq> [] \<and> str_split '' '' = [] \<and> build_lines '' '' 40 mono_font = Inl IndexError"
  by (simp add: build_lines_def str_split_def isspace_def)

text \<open>
  Claim C1, amended. For every text with at least one word, every font and every
  \<open>max_width\<close> that is at least the measured width of each single word of the text,
  \<open>build_lines\<close> returns lines, the measured width of each line's text is at most
  \<open>max_width\<close>, each line's text is its own words joined by single spaces, the words
  of the lines, in order, are exactly the words of the text, and the lines joined by
  single spaces are the words of the text joined by single spaces.
\<close>

theorem build_lines_fits_and_keeps_words:
  assumes ne: "str_split t \<noteq> []"
    and fit: "\<forall>w \<in> set (str_split t). fst (font w) \<le> max_width"
  shows "\<exists>ls. build_lines t max_width font = Inr ls
      \<and> (\<forall>l \<in> set ls. fst (font (snd l)) \<le> max_width)
      \<and> (\<forall>l \<in> set ls. snd l = join_words (str_split (snd l)))
      \<and> concat (map (str_split \<circ> snd) ls) = str_split t
      \<and> join_words (map snd ls) = join_words (str_split t)"
proof -
  from ne obtain w rest where sp: "str_split t = w # rest" by (cases "str_split t") auto
  obtain ls c h where r: "build_lines_loop font max_width rest ([], w, snd (font w)) = (ls, c, h)"
    by (cases "build_lines_loop font max_width rest ([], w, snd (font w))") auto
  have words: "is_word w" "list_all is_word rest"
    using str_split_words [of t] by (simp_all add: sp)
  have fits: "fst (font w) \<le> max_width" "list_all (\<lambda>w. fst (font w) \<le> max_width) rest"
    using fit by (simp_all add: sp list_all_iff)
  have res: "build_lines t max_width font = Inr (ls @ [(h, c)])"
    by (simp add: build_lines_Inr [OF sp] r)
  have a: "fst (font c) \<le> max_width \<and> list_all (\<lambda>l. fst (font (snd l)) \<le> max_width) ls"
    by (rule loop_width [OF r fits(2) fits(1)]) simp
  have b: "(c = join_words (str_split c) \<and> str_split c \<noteq> []) \<and>
         list_all (\<lambda>l. snd l = join_words (str_split (snd l)) \<and> str_split (snd l) \<noteq> []) ls"
    by (rule loop_wordy [OF r words(2)]) (simp_all add: str_split_word [OF words(1)])
  have c: "concat (map (str_split \<circ> snd) ls) @ str_split c = w # rest"
    using loop_words [OF r words(2)] by (simp add: str_split_word [OF words(1)])
  have d: "join_words (map snd ls @ [c]) = join_words (w # rest)"
    using loop_join [OF r] by simp
  show ?thesis
    using a b c d by (auto simp: res sp list_all_iff)
qed

theorem build_lines_fits_and_keeps_words_witness:
  "str_split ''ab cd ef'' \<noteq> []
   \<and> list_all (\<lambda>w. fst (mono_font w) \<le> 40) (str_split ''ab cd ef'')
   \<and> (\<exists>ls. build_lines ''ab cd ef'' 40 mono_font = Inr ls
         \<and> list_all (\<lambda>l. fst (mono_font (snd l)) \<le> 40) ls
         \<and> concat (map (str_split \<circ> snd) ls) = [''ab'', ''cd'', ''ef'']
         \<and> join_words (map snd ls) = ''ab cd ef'')"
proof -
  have h1: "str_split ''ab cd ef'' \<noteq> []" by (simp add: split_demo)
  have h2: "\<forall>w \<in> set (str_split ''ab cd ef''). fst (mono_font w) \<le> 40"
    by (simp add: split_demo mono_font_def)
  from build_lines_fits_and_keeps_words [OF h1 h2] h2 show ?thesis
    by (auto simp: split_demo list_all_iff)
qed




text \<open>
  Claim C2 says that the height of a line is the font's height of that line's own
  text. The source overwrites \<open>height\<close> with the height of the projected line before it
  tests the width, so a line finished by an overflow carries the height of the
  projected line, and a last line that starts with the overflowing word carries it too.
  With \<open>tall_font\<close>, the text \<open>a Q\<close> and the width 8, the line \<open>a\<close> gets the height
  20 of the projected line \<open>a Q\<close>, while the height of \<open>a\<close> is 16.
\<close>

theorem build_lines_height_of_projected_line:
  "build_lines ''a Q'' 8 tall_font = Inr [(20, ''a''), (20, ''Q'')]
   \<and> tall_font ''a'' = (8, 16) \<and> tall_font ''a Q'' = (24, 20)"
  by (simp add: build_lines_def str_split_def isspace_def tall_font_def)

section \<open>Box splitting\<close>

lemma box_total_height_single: "box_total_height sp [l] = fst l"
  by (simp add: box_total_height_def)

lemma box_total_height_snoc:
  "b \<noteq> [] \<Longrightarrow> box_total_height sp (b @ [l]) = box_total_height sp b + (fst l + sp)"
  by (simp add: box_total_height_def algebra_simps)

lemma box_ok_single: "box_ok bh sp [l]"
  by (auto simp: box_ok_def box_total_height_single)

lemma split_loop_inv:
  assumes "split_boxes_loop bh sp ls (bs, h, b) = (bs', h', b')"
    and "list_all (box_ok bh sp) bs" and "box_ok bh sp b" and "h = box_total_height sp b"
  shows "list_all (box_ok bh sp) bs' \<and> box_ok bh sp b' \<and> concat bs' @ b' = concat bs @ b @ ls"
  using assms
proof (induction ls arbitrary: bs h b)
  case Nil then show ?case by simp
next
  case (Cons l ls)
  from Cons.prems(3) have ne: "b \<noteq> []" by (simp add: box_ok_def)
  show ?case
  proof (cases "bh < h + fst l + sp")
    case True
    with Cons.prems(1) have "split_boxes_loop bh sp ls (bs @ [b], fst l, [l]) = (bs', h', b')"
      by simp
    from Cons.IH [OF this] Cons.prems(2,3) show ?thesis
      by (simp add: box_ok_single box_total_height_single)
  next
    case False
    with Cons.prems(1) have r: "split_boxes_loop bh sp ls (bs, h + (fst l + sp), b @ [l]) = (bs', h', b')"
      by simp
    have ok: "box_ok bh sp (b @ [l])"
      using False Cons.prems(4) ne by (simp add: box_ok_def box_total_height_snoc)
    from Cons.IH [OF r Cons.prems(2) ok] Cons.prems(4) ne show ?thesis
      by (simp add: box_total_height_snoc)
  qed
qed

lemma split_loop_small:
  assumes "split_boxes_loop bh sp ls (bs, h, b) = (bs', h', b')"
    and "list_all (\<lambda>l. fst l \<le> bh) ls"
    and "list_all (\<lambda>b. box_total_height sp b \<le> bh) bs"
    and "box_total_height sp b \<le> bh" and "b \<noteq> []" and "h = box_total_height sp b"
  shows "list_all (\<lambda>b. box_total_height sp b \<le> bh) bs' \<and> box_total_height sp b' \<le> bh"
  using assms
proof (induction ls arbitrary: bs h b)
  case Nil then show ?case by simp
next
  case (Cons l ls)
  from Cons.prems(2) have l: "fst l \<le> bh" and ls: "list_all (\<lambda>l. fst l \<le> bh) ls"
    by simp_all
  show ?case
  proof (cases "bh < h + fst l + sp")
    case True
    with Cons.prems(1) have r: "split_boxes_loop bh sp ls (bs @ [b], fst l, [l]) = (bs', h', b')"
      by simp
    have p3: "list_all (\<lambda>b. box_total_height sp b \<le> bh) (bs @ [b])"
      using Cons.prems(3,4) by simp
    have p4: "box_total_height sp [l] \<le> bh" using l by (simp add: box_total_height_single)
    have p6: "fst l = box_total_height sp [l]" by (simp add: box_total_height_single)
    show ?thesis by (rule Cons.IH [OF r ls p3 p4 _ p6]) simp
  next
    case False
    with Cons.prems(1) have r: "split_boxes_loop bh sp ls (bs, h + (fst l + sp), b @ [l]) = (bs', h', b')"
      by simp
    have eq: "h + (fst l + sp) = box_total_height sp (b @ [l])"
      using Cons.prems(5,6) by (simp add: box_total_height_snoc)
    have ok: "box_total_height sp (b @ [l]) \<le> bh"
      using False eq by simp
    show ?thesis by (rule Cons.IH [OF r ls Cons.prems(3) ok _ eq]) simp
  qed
qed

lemma split_boxes_Inr:
  assumes "ls \<noteq> []"
  shows "\<exists>bs b. split_boxes ls bh sp = Inr (bs @ [b])
      \<and> list_all (box_ok bh sp) (bs @ [b])
      \<and> concat (bs @ [b]) = ls
      \<and> (list_all (\<lambda>l. fst l \<le> bh) ls
           \<longrightarrow> list_all (\<lambda>b. box_total_height sp b \<le> bh) (bs @ [b]))"
proof -
  from assms obtain l0 rest where ls: "ls = l0 # rest" by (cases ls) auto
  obtain bs h b where r: "split_boxes_loop bh sp rest ([], fst l0, [l0]) = (bs, h, b)"
    by (cases "split_boxes_loop bh sp rest ([], fst l0, [l0])") auto
  have inv: "list_all (box_ok bh sp) bs \<and> box_ok bh sp b
             \<and> concat bs @ b = concat [] @ [l0] @ rest"
    by (rule split_loop_inv [OF r]) (simp_all add: box_ok_single box_total_height_single)
  then have ne: "b \<noteq> []" by (simp add: box_ok_def)
  have res: "split_boxes ls bh sp = Inr (bs @ [b])"
    by (simp add: split_boxes_def ls r ne)
  have small: "list_all (\<lambda>b. box_total_height sp b \<le> bh) (bs @ [b])"
    if "list_all (\<lambda>l. fst l \<le> bh) ls"
  proof -
    from that have a: "list_all (\<lambda>l. fst l \<le> bh) rest" and b: "fst l0 \<le> bh"
      by (simp_all add: ls)
    have "list_all (\<lambda>b. box_total_height sp b \<le> bh) bs \<and> box_total_height sp b \<le> bh"
      by (rule split_loop_small [OF r a]) (simp_all add: box_total_height_single b)
    then show ?thesis by simp
  qed
  have c: "concat (bs @ [b]) = ls" using inv by (simp add: ls)
  have d: "list_all (box_ok bh sp) (bs @ [b])" using inv by simp
  from res c d small show ?thesis by blast
qed

text \<open>
  Claim C3. For every non-empty sequence of lines, \<open>split_boxes\<close> returns boxes; every
  box is non-empty; the total height of every box (the heights of its lines and the
  spacing between consecutive lines) is at most \<open>max_box_height\<close>, except for a box
  that is a single line taller than the budget; when \<open>max_box_height\<close> is at least
  the height of the tallest line there is no such exception; and the boxes
  concatenated, in order, are the input lines.
\<close>

theorem split_boxes_fits_and_keeps_lines:
  assumes "ls \<noteq> []"
  shows "\<exists>bs. split_boxes ls max_box_height sp = Inr bs
      \<and> (\<forall>b \<in> set bs. b \<noteq> [] \<and>
            (box_total_height sp b \<le> max_box_height \<or> (\<exists>l. b = [l] \<and> max_box_height < fst l)))
      \<and> ((\<forall>l \<in> set ls. fst l \<le> max_box_height)
            \<longrightarrow> (\<forall>b \<in> set bs. box_total_height sp b \<le> max_box_height))
      \<and> concat bs = ls"
proof -
  from split_boxes_Inr [OF assms, of max_box_height sp] obtain bs b where
    res: "split_boxes ls max_box_height sp = Inr (bs @ [b])" and
    ok: "list_all (box_ok max_box_height sp) (bs @ [b])" and
    cc: "concat (bs @ [b]) = ls" and
    small: "list_all (\<lambda>l. fst l \<le> max_box_height) ls
           \<longrightarrow> list_all (\<lambda>b. box_total_height sp b \<le> max_box_height) (bs @ [b])"
    by blast
  show ?thesis
  proof (intro exI conjI)
    show "split_boxes ls max_box_height sp = Inr (bs @ [b])" by (rule res)
    show "\<forall>b \<in> set (bs @ [b]). b \<noteq> [] \<and>
            (box_total_height sp b \<le> max_box_height \<or> (\<exists>l. b = [l] \<and> max_box_height < fst l))"
      using ok unfolding list_all_iff box_ok_def by blast
    show "(\<forall>l \<in> set ls. fst l \<le> max_box_height)
            \<longrightarrow> (\<forall>b \<in> set (bs @ [b]). box_total_height sp b \<le> max_box_height)"
      using small unfolding list_all_iff by blast
    show "concat (bs @ [b]) = ls" by (rule cc)
  qed
qed

text \<open>
  Claim C10. \<open>split_boxes\<close> fails on the empty sequence of lines: it reads the first
  line, which raises \<open>IndexError\<close>, and returns no box list. This is its only
  failure; on a non-empty sequence it always returns, and the result has at least one
  box.
\<close>

theorem split_boxes_total_on_lines:
  "split_boxes [] bh sp = Inl IndexError
   \<and> (split_boxes ls bh sp = Inl IndexError \<longleftrightarrow> ls = [])
   \<and> (ls \<noteq> [] \<longrightarrow> (\<exists>bs. split_boxes ls bh sp = Inr bs \<and> bs \<noteq> []))"
proof (cases "ls = []")
  case True then show ?thesis by (simp add: split_boxes_def)
next
  case False
  from split_boxes_Inr [OF False, of bh sp] obtain bs b where
    "split_boxes ls bh sp = Inr (bs @ [b])" by blast
  with False show ?thesis by (simp add: split_boxes_def)
qed

lemma boxes_demo:
  "split_boxes [(16, ''a''), (16, ''b''), (16, ''c'')] 40 4 = Inr [[(16, ''a''), (16, ''b'')], [(16, ''c'')]]"
  by (simp add: split_boxes_def)

lemma boxes_tall_demo:
  "split_boxes [(16, ''a''), (50, ''b''), (16, ''c'')] 40 4 = Inr [[(16, ''a'')], [(50, ''b'')], [(16, ''c'')]]"
  by (simp add: split_boxes_def)

theorem split_boxes_fits_and_keeps_lines_witness:
  "[(16, ''a''), (16, ''b''), (16, ''c'')] \<noteq> []
   \<and> list_all (\<lambda>l. fst l \<le> 40) [(16::int, ''a''), (16, ''b''), (16, ''c'')]
   \<and> (\<exists>bs. split_boxes [(16, ''a''), (16, ''b''), (16, ''c'')] 40 4 = Inr bs
        \<and> bs = [[(16, ''a''), (16, ''b'')], [(16, ''c'')]]
        \<and> list_all (\<lambda>b. b \<noteq> [] \<and> box_total_height 4 b \<le> 40) bs
        \<and> concat bs = [(16, ''a''), (16, ''b''), (16, ''c'')])"
proof -
  have h: "[(16::int, ''a''), (16, ''b''), (16, ''c'')] \<noteq> []" by simp
  from split_boxes_fits_and_keeps_lines [OF h, of 40 4] show ?thesis
    by (auto simp: boxes_demo list_all_iff)
qed

theorem split_boxes_total_on_lines_witness:
  "split_boxes [] 40 4 = Inl IndexError
   \<and> [(16::int, ''a''), (16, ''b'')] \<noteq> []
   \<and> (\<exists>bs. split_boxes [(16, ''a''), (16, ''b'')] 40 4 = Inr bs \<and> bs \<noteq> [])"
  using split_boxes_total_on_lines [of 40 4 "[(16, ''a''), (16, ''b'')]"] by simp


section \<open>The dialogs\<close>

subsection \<open>The flag returned by \<open>process_event\<close>\<close>

text \<open>
  Claim C7. For every event, \<open>process_event\<close> of a \<open>MessageDialog\<close>, of an
  \<open>ElasticMessageDialog\<close> and of a \<open>MultiMessageDialog\<close> returns the dialog's
  \<open>block_movement\<close> flag, whatever the event did to the dialog, and the flag of the
  dialog stays what it was. \<open>process_event\<close> of a \<open>ChoiceDialog\<close> returns \<open>True\<close> for
  a key-down event whose key is a left or a right key, and the \<open>block_movement\<close> flag
  for every other event.
\<close>

theorem process_event_returns_block_movement:
  "fst (MessageDialog_process_event cfg d e) = block_movement d
   \<and> block_movement (snd (MessageDialog_process_event cfg d e)) = block_movement d
   \<and> fst (ElasticMessageDialog_process_event cfg ed e) = block_movement ed
   \<and> block_movement (snd (ElasticMessageDialog_process_event cfg ed e)) = block_movement ed
   \<and> fst (MultiMessageDialog_process_event cfg md e) = block_movement md
   \<and> block_movement (snd (MultiMessageDialog_process_event cfg md e)) = block_movement md
   \<and> fst (ChoiceDialog_process_event cfg cd e) =
       (if ev_type e = KEYDOWN
           \<and> (ev_key e \<in> set (key_left cfg) \<or> ev_key e \<in> set (key_right cfg))
        then True else block_movement cd)
   \<and> block_movement (snd (ChoiceDialog_process_event cfg cd e)) = block_movement cd"
proof -
  have a: "block_movement (advance_panel md) = block_movement md"
    by (simp add: advance_panel_def Let_def split: option.splits list.splits)
  have m: "fst (MultiMessageDialog_process_event cfg md e) = block_movement md
     \<and> block_movement (snd (MultiMessageDialog_process_event cfg md e)) = block_movement md"
    by (simp add: MultiMessageDialog_process_event_def Let_def a)
  have c: "fst (ChoiceDialog_process_event cfg cd e) =
       (if ev_type e = KEYDOWN
           \<and> (ev_key e \<in> set (key_left cfg) \<or> ev_key e \<in> set (key_right cfg))
        then True else block_movement cd)
     \<and> block_movement (snd (ChoiceDialog_process_event cfg cd e)) = block_movement cd"
    by (simp add: ChoiceDialog_process_event_def Let_def)
  have s: "fst (MessageDialog_process_event cfg d e) = block_movement d
   \<and> block_movement (snd (MessageDialog_process_event cfg d e)) = block_movement d
   \<and> fst (ElasticMessageDialog_process_event cfg ed e) = block_movement ed
   \<and> block_movement (snd (ElasticMessageDialog_process_event cfg ed e)) = block_movement ed"
    by (simp add: MessageDialog_process_event_def ElasticMessageDialog_process_event_def Let_def)
  from s m c show ?thesis by blast
qed

theorem process_event_returns_block_movement_witness:
  "MessageDialog_process_event demo_config demo_dialog (key_event 13)
     = (False, demo_dialog\<lparr>menu := close demo_menu\<rparr>)
   \<and> fst (ChoiceDialog_process_event demo_config demo_choice (key_event 13)) = False
   \<and> fst (ChoiceDialog_process_event demo_config demo_choice (key_event 276)) = True
   \<and> fst (ChoiceDialog_process_event demo_config demo_choice (key_event 275)) = True
   \<and> fst (ChoiceDialog_process_event demo_config demo_choice (key_event 32)) = False
   \<and> fst (ChoiceDialog_process_event demo_config demo_choice
            \<lparr>ev_type = KEYUP, ev_key = 276\<rparr>) = False"
  using
    process_event_returns_block_movement
      [where cfg = demo_config and d = demo_dialog and e = "key_event 13" and cd = demo_choice]
    process_event_returns_block_movement
      [where cfg = demo_config and e = "key_event 276" and cd = demo_choice]
    process_event_returns_block_movement
      [where cfg = demo_config and e = "key_event 275" and cd = demo_choice]
    process_event_returns_block_movement
      [where cfg = demo_config and e = "key_event 32" and cd = demo_choice]
    process_event_returns_block_movement
      [where cfg = demo_config and e = "\<lparr>ev_type = KEYUP, ev_key = 276\<rparr>" and cd = demo_choice]
  by (simp add: demo_config_def demo_dialog_def demo_choice_def key_event_def
        MessageDialog_process_event_def Let_def)

subsection \<open>The height check of \<open>ElasticMessageDialog\<close>\<close>

lemma elastic_demo_lines:
  "build_lines ''ab cd ef'' 80 mono_font = Inr [(16, ''ab cd ef'')]"
  by (simp add: build_lines_def str_split_def isspace_def mono_font_def)

text \<open>
  Claim C4. The constructor of \<open>ElasticMessageDialog\<close> raises \<open>AssertionError\<close>, and
  gives no dialog, exactly when the text wraps into lines whose computed box height
  (the heights of the lines, the spacing between consecutive lines and the border
  padding) equals or exceeds the screen height. It gives a dialog exactly when the text
  wraps into lines whose computed box height is strictly less than the screen height,
  and the dialog's \<open>box_height\<close> is then that height. The \<open>assert\<close> statement is
  executed, as Python does unless it is run with the option \<open>-O\<close>.
\<close>

theorem ElasticMessageDialog_init_height_check:
  "(ElasticMessageDialog_init cfg t blk = Inl AssertionError \<longleftrightarrow>
      (\<exists>ls. build_lines t (screen_width cfg - 4 * border_width cfg)
                (get_font cfg (font_size cfg)) = Inr ls
            \<and> screen_height cfg \<le> computed_box_height cfg ls))
   \<and> ((\<exists>d. ElasticMessageDialog_init cfg t blk = Inr d) \<longleftrightarrow>
      (\<exists>ls. build_lines t (screen_width cfg - 4 * border_width cfg)
                (get_font cfg (font_size cfg)) = Inr ls
            \<and> computed_box_height cfg ls < screen_height cfg))
   \<and> (\<forall>d ls. ElasticMessageDialog_init cfg t blk = Inr d
         \<and> build_lines t (screen_width cfg - 4 * border_width cfg)
               (get_font cfg (font_size cfg)) = Inr ls
        \<longrightarrow> box_height d = computed_box_height cfg ls \<and> box_height d < screen_height cfg)"
proof (cases "build_lines t (screen_width cfg - 4 * border_width cfg) (get_font cfg (font_size cfg))")
  case (Inl e)
  have "e = IndexError" using Inl
    by (cases "str_split t") (auto simp: build_lines_def split: prod.splits)
  with Inl show ?thesis by (simp add: ElasticMessageDialog_init_def Let_def)
next
  case (Inr ls)
  then show ?thesis
    by (auto simp: ElasticMessageDialog_init_def Let_def computed_box_height_def
          box_total_height_def)
qed

theorem ElasticMessageDialog_init_height_check_witness:
  "computed_box_height demo_config [(16, ''ab cd ef'')] = 36
   \<and> ElasticMessageDialog_init (demo_config\<lparr>screen_height := 36\<rparr>) ''ab cd ef'' True
        = Inl AssertionError
   \<and> ElasticMessageDialog_init (demo_config\<lparr>screen_height := 30\<rparr>) ''ab cd ef'' True
        = Inl AssertionError
   \<and> (\<exists>d. ElasticMessageDialog_init (demo_config\<lparr>screen_height := 37\<rparr>) ''ab cd ef'' True = Inr d
          \<and> box_height d = 36)"
proof -
  have c: "computed_box_height (demo_config\<lparr>screen_height := h\<rparr>) [(16, ''ab cd ef'')] = 36" for h
    by (simp add: computed_box_height_def box_total_height_def demo_config_def)
  have c0: "computed_box_height demo_config [(16, ''ab cd ef'')] = 36"
    by (simp add: computed_box_height_def box_total_height_def demo_config_def)
  have l: "build_lines ''ab cd ef''
             (screen_width demo_config - 4 * border_width demo_config)
             (get_font demo_config (font_size demo_config))
           = Inr [(16, ''ab cd ef'')]"
    by (simp add: demo_config_def elastic_demo_lines)
  from ElasticMessageDialog_init_height_check
         [of "demo_config\<lparr>screen_height := 36\<rparr>" "''ab cd ef''" True]
  have a: "ElasticMessageDialog_init (demo_config\<lparr>screen_height := 36\<rparr>) ''ab cd ef'' True
             = Inl AssertionError"
    by (simp add: l c)
  from ElasticMessageDialog_init_height_check
         [of "demo_config\<lparr>screen_height := 30\<rparr>" "''ab cd ef''" True]
  have b: "ElasticMessageDialog_init (demo_config\<lparr>screen_height := 30\<rparr>) ''ab cd ef'' True
             = Inl AssertionError"
    by (simp add: l c)
  from ElasticMessageDialog_init_height_check
         [of "demo_config\<lparr>screen_height := 37\<rparr>" "''ab cd ef''" True]
  have d: "\<exists>d. ElasticMessageDialog_init (demo_config\<lparr>screen_height := 37\<rparr>) ''ab cd ef'' True = Inr d
          \<and> box_height d = 36"
    by (simp add: l c) blast
  from c0 a b d show ?thesis by blast
qed

subsection \<open>The pages of \<open>MultiMessageDialog\<close>\<close>

lemma process_other:
  "\<not> is_confirm cfg e \<Longrightarrow> snd (MultiMessageDialog_process_event cfg d e) = d"
  by (auto simp: MultiMessageDialog_process_event_def is_confirm_def)

lemma process_confirm_next:
  assumes "showing ps k d" "is_confirm cfg e" "Suc k < length ps"
  shows "showing ps (Suc k) (snd (MultiMessageDialog_process_event cfg d e))"
proof -
  from assms(1,3) have p: "panels d = ps ! Suc k # drop (Suc (Suc k)) ps"
    by (simp add: showing_def Cons_nth_drop_Suc)
  from assms(1) have c: "current_panel d = Some (ps ! k)" and w: "widgets (menu d) = [(ps ! k, 0, 0)]"
    and o: "\<not> closed (menu d)"
    by (simp_all add: showing_def shows_panel_def)
  have a: "advance_panel d = d\<lparr>menu := (menu d)\<lparr>widgets := [(ps ! Suc k, 0, 0)]\<rparr>,
                               current_panel := Some (ps ! Suc k),
                               panels := drop (Suc (Suc k)) ps\<rparr>"
    by (simp add: advance_panel_def p c w remove_widget_def add_widget_def)
  from assms(2) have "snd (MultiMessageDialog_process_event cfg d e) = advance_panel d"
    by (simp add: MultiMessageDialog_process_event_def is_confirm_def a)
  with assms(3) o show ?thesis
    by (simp add: a showing_def shows_panel_def)
qed

lemma process_confirm_last:
  assumes "showing ps k d" "is_confirm cfg e" "Suc k = length ps"
  shows "finished (snd (MultiMessageDialog_process_event cfg d e))"
proof -
  from assms(1,3) have p: "panels d = []" by (simp add: showing_def)
  from assms(1) have c: "current_panel d = Some (ps ! k)" and w: "widgets (menu d) = [(ps ! k, 0, 0)]"
    by (simp_all add: showing_def shows_panel_def)
  have a: "advance_panel d = d\<lparr>menu := (menu d)\<lparr>widgets := []\<rparr>, current_panel := None\<rparr>"
    by (simp add: advance_panel_def p c w remove_widget_def)
  from assms(2) have "snd (MultiMessageDialog_process_event cfg d e)
      = (advance_panel d)\<lparr>menu := close (menu (advance_panel d))\<rparr>"
    by (simp add: MultiMessageDialog_process_event_def is_confirm_def a)
  then show ?thesis
    by (simp add: a p finished_def is_closed_def close_def)
qed

lemma process_finished:
  assumes "finished d"
  shows "finished (snd (MultiMessageDialog_process_event cfg d e))"
  using assms
  by (simp add: finished_def is_closed_def MultiMessageDialog_process_event_def
        advance_panel_def close_def Let_def)

lemma process_events_Cons:
  "process_events cfg d (e # es)
     = process_events cfg (snd (MultiMessageDialog_process_event cfg d e)) es"
  by (simp add: process_events_def)

lemma process_events_finished:
  "finished d \<Longrightarrow> finished (process_events cfg d es)"
proof (induction es arbitrary: d)
  case Nil then show ?case by (simp add: process_events_def)
next
  case (Cons e es)
  show ?case unfolding process_events_Cons
    by (rule Cons.IH) (rule process_finished [OF Cons.prems])
qed

text \<open>
  From page \<open>k\<close>, a sequence of events with \<open>c\<close> confirm events leads to page \<open>k + c\<close>
  when there is such a page, and to the closed dialog otherwise.
\<close>

lemma process_events_showing:
  assumes "showing ps k d"
  shows "(k + confirms cfg es < length ps
            \<longrightarrow> showing ps (k + confirms cfg es) (process_events cfg d es))
       \<and> (length ps \<le> k + confirms cfg es \<longrightarrow> finished (process_events cfg d es))"
  using assms
proof (induction es arbitrary: d k)
  case Nil then show ?case by (simp add: process_events_def confirms_def showing_def)
next
  case (Cons e es)
  let ?d = "snd (MultiMessageDialog_process_event cfg d e)"
  show ?case
  proof (cases "is_confirm cfg e")
    case False
    then have d: "?d = d" by (rule process_other)
    from False have c: "confirms cfg (e # es) = confirms cfg es" by (simp add: confirms_def)
    from Cons.IH [OF Cons.prems] show ?thesis unfolding process_events_Cons d c .
  next
    case True
    then have c: "confirms cfg (e # es) = Suc (confirms cfg es)" by (simp add: confirms_def)
    from Cons.prems have k: "k < length ps" by (simp add: showing_def)
    show ?thesis
    proof (cases "Suc k < length ps")
      case True
      have "showing ps (Suc k) ?d"
        by (rule process_confirm_next [OF Cons.prems \<open>is_confirm cfg e\<close> True])
      from Cons.IH [OF this] show ?thesis unfolding process_events_Cons c by simp
    next
      case False
      with k have l: "Suc k = length ps" by simp
      have "finished ?d" by (rule process_confirm_last [OF Cons.prems True l])
      then have "finished (process_events cfg ?d es)" by (rule process_events_finished)
      with l show ?thesis unfolding process_events_Cons c by simp
    qed
  qed
qed

text \<open>The constructor leaves the dialog on page 0 of the panels drawn from its boxes.\<close>

lemma MultiMessageDialog_init_showing:
  assumes "MultiMessageDialog_init cfg t blk = Inr d"
  shows "\<exists>ls. build_lines t (screen_width cfg - 4 * border_width cfg)
                 (get_font cfg (font_size cfg)) = Inr ls
       \<and> split_boxes ls (screen_height cfg div 2 - 4 * border_width cfg)
             (cfg_line_spacing cfg) = Inr (boxes d)
       \<and> boxes d \<noteq> []
       \<and> showing (map (page cfg d) [0 ..< length (boxes d)]) 0 d"
proof -
  let ?bl = "build_lines t (screen_width cfg - 4 * border_width cfg) (get_font cfg (font_size cfg))"
  from assms obtain ls where ls: "?bl = Inr ls"
    by (cases ?bl) (simp_all add: MultiMessageDialog_init_def Let_def)
  let ?sb = "split_boxes ls (screen_height cfg div 2 - 4 * border_width cfg) (cfg_line_spacing cfg)"
  from assms ls obtain bs where bs: "?sb = Inr bs"
    by (cases ?sb) (simp_all add: MultiMessageDialog_init_def Let_def)
  from bs have "ls \<noteq> []" by (auto simp: split_boxes_def)
  from split_boxes_Inr [OF this, of "screen_height cfg div 2 - 4 * border_width cfg"
         "cfg_line_spacing cfg"] bs
  have ne: "bs \<noteq> []" by auto
  then obtain b0 rest where b0: "bs = b0 # rest" by (cases bs) auto
  let ?m = "Menu_init (screen_width cfg - 2 * border_width cfg)
                        (screen_height cfg div 2 - 2 * border_width cfg)
                        (border_width cfg)
                        (screen_height cfg div 2 + border_width cfg)"
  let ?ps = "map (draw_panel cfg (width ?m) (height ?m)) bs"
  from assms ls bs
  have d: "d = \<lparr>menu = add_widget ?m (hd ?ps) (0, 0), dlg_text = t, block_movement = blk,
      current_panel = Some (hd ?ps), boxes = bs, panels = tl ?ps\<rparr>"
    by (simp add: MultiMessageDialog_init_def Let_def advance_panel_def b0)
  have w: "width (menu d) = width ?m" "height (menu d) = height ?m" "boxes d = bs"
    by (simp_all add: d add_widget_def)
  have pg: "map (page cfg d) [0 ..< length (boxes d)] = ?ps"
    by (rule nth_equalityI) (simp_all add: page_def w)
  have "showing ?ps 0 d"
    by (simp add: showing_def shows_panel_def d b0 add_widget_def Menu_init_def drop_Suc)
  with ls bs ne pg w(3) show ?thesis by simp
qed

text \<open>
  Claim C5. A \<open>MultiMessageDialog\<close> that was constructed holds the boxes into which
  its text paginates, at least one, and shows page 0. After any sequence of events from
  that state, with \<open>k\<close> confirm events among them and \<open>N\<close> boxes: when \<open>k < N\<close> the
  dialog is open and shows page \<open>k\<close>, so every confirm event before the \<open>N\<close>-th moves
  to the next page and no page is skipped or repeated; when \<open>N \<le> k\<close> the dialog is
  closed, so the \<open>N\<close>-th confirm event closes it and no smaller number does.
\<close>

theorem MultiMessageDialog_pages:
  assumes "MultiMessageDialog_init cfg t blk = Inr d"
  shows "(\<exists>ls. build_lines t (screen_width cfg - 4 * border_width cfg)
                  (get_font cfg (font_size cfg)) = Inr ls
            \<and> split_boxes ls (screen_height cfg div 2 - 4 * border_width cfg)
                  (cfg_line_spacing cfg) = Inr (boxes d))
     \<and> boxes d \<noteq> []
     \<and> shows_panel d (page cfg d 0)
     \<and> (\<forall>es. (confirms cfg es < length (boxes d)
                 \<longrightarrow> shows_panel (process_events cfg d es) (page cfg d (confirms cfg es)))
            \<and> (length (boxes d) \<le> confirms cfg es \<longrightarrow> is_closed (process_events cfg d es)))"
proof -
  let ?ps = "map (page cfg d) [0 ..< length (boxes d)]"
  from MultiMessageDialog_init_showing [OF assms] obtain ls where
    ls: "build_lines t (screen_width cfg - 4 * border_width cfg) (get_font cfg (font_size cfg)) = Inr ls"
      "split_boxes ls (screen_height cfg div 2 - 4 * border_width cfg) (cfg_line_spacing cfg) = Inr (boxes d)"
    and ne: "boxes d \<noteq> []" and s: "showing ?ps 0 d" by blast
  from s ne have p0: "shows_panel d (page cfg d 0)" by (simp add: showing_def)
  have a: "confirms cfg es < length (boxes d)
                 \<longrightarrow> shows_panel (process_events cfg d es) (page cfg d (confirms cfg es))" for es
    using process_events_showing [OF s, of cfg es] by (simp add: showing_def)
  have b: "length (boxes d) \<le> confirms cfg es \<longrightarrow> is_closed (process_events cfg d es)" for es
    using process_events_showing [OF s, of cfg es] by (simp add: finished_def)
  from ls ne p0 a b show ?thesis by blast
qed

lemma multi_demo_lines:
  "build_lines ''aaaa bbbb cccc dddd eeee'' 80 mono_font
     = Inr [(16, ''aaaa bbbb''), (16, ''cccc dddd''), (16, ''eeee'')]"
  by (simp add: build_lines_def str_split_def isspace_def mono_font_def)

lemma multi_demo_boxes:
  "split_boxes [(16, ''aaaa bbbb''), (16, ''cccc dddd''), (16, ''eeee'')] 40 2
     = Inr [[(16, ''aaaa bbbb''), (16, ''cccc dddd'')], [(16, ''eeee'')]]"
  by (simp add: split_boxes_def)

lemma multi_demo:
  "\<exists>d. MultiMessageDialog_init demo_config ''aaaa bbbb cccc dddd eeee'' True = Inr d
      \<and> boxes d = [[(16, ''aaaa bbbb''), (16, ''cccc dddd'')], [(16, ''eeee'')]]"
  by (simp add: MultiMessageDialog_init_def demo_config_def multi_demo_lines multi_demo_boxes
        advance_panel_def Let_def)

lemma demo_confirms:
  "confirms demo_config [] = 0"
  "confirms demo_config [key_event 13] = 1"
  "confirms demo_config [key_event 32, key_event 13, \<lparr>ev_type = KEYUP, ev_key = 13\<rparr>] = 1"
  "confirms demo_config [key_event 13, key_event 32, key_event 13] = 2"
  by (simp_all add: confirms_def is_confirm_def key_event_def demo_config_def)

theorem MultiMessageDialog_pages_witness:
  "\<exists>d. MultiMessageDialog_init demo_config ''aaaa bbbb cccc dddd eeee'' True = Inr d
      \<and> boxes d = [[(16, ''aaaa bbbb''), (16, ''cccc dddd'')], [(16, ''eeee'')]]
      \<and> shows_panel d (page demo_config d 0)
      \<and> shows_panel (process_events demo_config d [key_event 13]) (page demo_config d 1)
      \<and> shows_panel (process_events demo_config d
            [key_event 32, key_event 13, \<lparr>ev_type = KEYUP, ev_key = 13\<rparr>]) (page demo_config d 1)
      \<and> is_closed (process_events demo_config d [key_event 13, key_event 32, key_event 13])"
proof -
  from multi_demo obtain d where
    i: "MultiMessageDialog_init demo_config ''aaaa bbbb cccc dddd eeee'' True = Inr d"
    and b: "boxes d = [[(16, ''aaaa bbbb''), (16, ''cccc dddd'')], [(16, ''eeee'')]]" by blast
  note t = MultiMessageDialog_pages [OF i]
  from t have p0: "shows_panel d (page demo_config d 0)" by blast
  from t have r: "(confirms demo_config es < length (boxes d)
                 \<longrightarrow> shows_panel (process_events demo_config d es)
                       (page demo_config d (confirms demo_config es)))
            \<and> (length (boxes d) \<le> confirms demo_config es
                 \<longrightarrow> is_closed (process_events demo_config d es))" for es
    by blast
  from r [of "[key_event 13]"]
  have p1: "shows_panel (process_events demo_config d [key_event 13]) (page demo_config d 1)"
    by (simp add: b demo_confirms)
  from r [of "[key_event 32, key_event 13, \<lparr>ev_type = KEYUP, ev_key = 13\<rparr>]"]
  have p2: "shows_panel (process_events demo_config d
            [key_event 32, key_event 13, \<lparr>ev_type = KEYUP, ev_key = 13\<rparr>]) (page demo_config d 1)"
    by (simp add: b demo_confirms)
  from r [of "[key_event 13, key_event 32, key_event 13]"]
  have p3: "is_closed (process_events demo_config d [key_event 13, key_event 32, key_event 13])"
    by (simp add: b demo_confirms)
  from i b p0 p1 p2 p3 show ?thesis by blast
qed

section \<open>The message queue\<close>

lemma run_snoc: "run (acts @ [a]) s = step (run acts s) a"
  by (simp add: run_def)

lemma pushed_snoc_Push: "pushed (acts @ [Push m]) = pushed acts @ [m]"
  by (induction acts rule: pushed.induct) simp_all

lemma pushed_snoc_Update: "pushed (acts @ [Update b]) = pushed acts"
  by (induction acts rule: pushed.induct) simp_all

lemma done_ticks_snoc:
  "done_ticks (acts @ [a]) = done_ticks acts + (if is_done_tick a then 1 else 0)"
  by (simp add: done_ticks_def)

lemma queue_inv_init: "queue_inv [] MessageQueue_init"
  by (simp add: queue_inv_def MessageQueue_init_def activated_def done_ticks_def)

lemma queue_inv_push: "queue_inv acts s \<Longrightarrow> queue_inv (acts @ [Push m]) (push m s)"
  by (simp add: queue_inv_def push_def activated_def pushed_snoc_Push done_ticks_snoc)

lemma queue_inv_update:
  assumes "queue_inv acts s"
  shows "queue_inv (acts @ [Update b]) (update b s)"
proof (cases "queue s")
  case Nil
  with assms show ?thesis
    by (auto simp: queue_inv_def update_def pop_next_def activated_def pushed_snoc_Update
          done_ticks_snoc)
next
  case (Cons m ms)
  with assms show ?thesis
    by (auto simp: queue_inv_def update_def pop_next_def activated_def pushed_snoc_Update
          done_ticks_snoc Let_def)
qed

lemma queue_inv_run: "queue_inv acts (run acts MessageQueue_init)"
proof (induction acts rule: rev_induct)
  case Nil show ?case by (simp add: run_def queue_inv_init)
next
  case (snoc a acts)
  show ?case
  proof (cases a)
    case (Push m)
    with queue_inv_push [OF snoc.IH, of m] show ?thesis by (simp add: run_snoc)
  next
    case (Update b)
    with queue_inv_update [OF snoc.IH, of b] show ?thesis by (simp add: run_snoc)
  qed
qed

text \<open>
  A tick activates nothing, or it activates the head of the queue; the latter only when
  no dialog was active or the controller reported done at this tick.
\<close>

lemma update_activation:
  "context_stack (update b s) = context_stack s
     \<and> current (update b s) = (if controller s \<noteq> None \<and> b then None else current s)
   \<or> ((current s = None \<or> (controller s \<noteq> None \<and> b)) \<and> queue s \<noteq> []
       \<and> context_stack (update b s) = context_stack s @ [MenuController (hd (queue s))]
       \<and> current (update b s) = Some (hd (queue s))
       \<and> queue (update b s) = tl (queue s))"
  by (simp add: update_def pop_next_def Let_def)

text \<open>
  Claim C6. Let \<open>s\<close> be the queue after any sequence of \<open>push\<close> calls and \<open>update\<close>
  ticks on a new queue. The dialogs activated so far, in the order of activation,
  followed by the waiting dialogs, are the pushed dialogs in push order: dialogs become
  active strictly in push order. An active dialog is the one activated last, and the
  controller is its controller: at most one dialog is active. The number of activated
  dialogs is at most the number of done ticks, and one more while a dialog is active:
  a dialog is activated only after every dialog activated before it has been reported
  done. \<open>push\<close> activates nothing and changes only the end of the waiting list. A tick
  activates nothing, or it activates the first waiting dialog, and this only when no
  dialog was active or the active one is reported done at this tick.
\<close>

theorem MessageQueue_fifo:
  fixes acts :: "'m action list"
  defines "s \<equiv> run acts MessageQueue_init"
  shows "activated s @ queue s = pushed acts
     \<and> (is_active s \<longrightarrow> activated s \<noteq> [] \<and> current s = Some (last (activated s))
                        \<and> controller s = Some (MenuController (last (activated s))))
     \<and> (\<not> is_active s \<longrightarrow> length (activated s) \<le> done_ticks acts)
     \<and> (is_active s \<longrightarrow> length (activated s) \<le> done_ticks acts + 1)
     \<and> (\<forall>m. activated (push m s) = activated s \<and> current (push m s) = current s
             \<and> queue (push m s) = queue s @ [m])
     \<and> (\<forall>b. (activated (update b s) = activated s
               \<and> (is_active (update b s) \<longrightarrow> current (update b s) = current s))
           \<or> ((\<not> is_active s \<or> b) \<and> queue s \<noteq> []
               \<and> activated (update b s) = activated s @ [hd (queue s)]
               \<and> current (update b s) = Some (hd (queue s))))"
proof -
  have inv: "queue_inv acts s" unfolding s_def by (rule queue_inv_run)
  have a: "activated s @ queue s = pushed acts" using inv by (simp add: queue_inv_def)
  have b: "is_active s \<longrightarrow> activated s \<noteq> [] \<and> current s = Some (last (activated s))
                        \<and> controller s = Some (MenuController (last (activated s)))"
  proof
    assume "is_active s"
    with inv have ne: "context_stack s \<noteq> []"
      and c: "current s = Some (menu_of (last (context_stack s)))"
      and k: "controller s = Some (last (context_stack s))"
      by (auto simp: queue_inv_def is_active_def)
    obtain m where m: "last (context_stack s) = MenuController m"
      by (cases "last (context_stack s)") auto
    from ne c k m show "activated s \<noteq> [] \<and> current s = Some (last (activated s))
                        \<and> controller s = Some (MenuController (last (activated s)))"
      by (simp add: activated_def last_map)
  qed
  have c: "\<not> is_active s \<longrightarrow> length (activated s) \<le> done_ticks acts"
    using inv by (auto simp: queue_inv_def is_active_def activated_def)
  have d: "is_active s \<longrightarrow> length (activated s) \<le> done_ticks acts + 1"
    using inv by (auto simp: queue_inv_def is_active_def activated_def)
  have e: "activated (push m s) = activated s \<and> current (push m s) = current s
             \<and> queue (push m s) = queue s @ [m]" for m
    by (simp add: push_def activated_def)
  have f: "(activated (update b s) = activated s
               \<and> (is_active (update b s) \<longrightarrow> current (update b s) = current s))
           \<or> ((\<not> is_active s \<or> b) \<and> queue s \<noteq> []
               \<and> activated (update b s) = activated s @ [hd (queue s)]
               \<and> current (update b s) = Some (hd (queue s)))" for b
    using update_activation [of b s] by (auto simp: activated_def is_active_def split: if_splits)
  from a b c d e f show ?thesis by blast
qed

lemma demo_run:
  "run demo_acts MessageQueue_init
     = \<lparr>current = Some 2, controller = Some (MenuController 2), queue = [3],
        context_stack = [MenuController 1, MenuController 2]\<rparr>"
  by (simp add: demo_acts_def run_def MessageQueue_init_def push_def update_def pop_next_def)

theorem MessageQueue_fifo_witness:
  "activated (run demo_acts MessageQueue_init) = [1, 2]
   \<and> queue (run demo_acts MessageQueue_init) = [3]
   \<and> pushed demo_acts = [1, 2, 3]
   \<and> done_ticks demo_acts = 1
   \<and> is_active (run demo_acts MessageQueue_init)
   \<and> current (run demo_acts MessageQueue_init) = Some 2
   \<and> activated (push 4 (run demo_acts MessageQueue_init)) = [1, 2]
   \<and> activated (update False (run demo_acts MessageQueue_init)) = [1, 2]
   \<and> activated (update True (run demo_acts MessageQueue_init)) = [1, 2, 3]
   \<and> current (update True (run demo_acts MessageQueue_init)) = Some 3"
proof -
  have p: "pushed demo_acts = [1, 2, 3]" and t: "done_ticks demo_acts = 1"
    by (simp_all add: demo_acts_def done_ticks_def)
  from MessageQueue_fifo [of demo_acts] p t show ?thesis
    by (simp add: demo_run activated_def is_active_def push_def update_def pop_next_def)
qed

end
